theory Spec2Isabelle
  imports Complex_Main "HOL-Library.Multiset"
begin

section \<open>Values held by the heap\<close>

text \<open>
  The arrays of the visualizer hold JavaScript numbers. The generators never do arithmetic
  on them; they only move them and compare them with \<open><\<close>. A number is therefore modelled
  by its mathematical value: \<open>NaN\<close>, one of the two infinities, or a finite real (every
  finite double is a real, and \<open><\<close> on doubles is exact comparison). The two signed zeros,
  which \<open><\<close> and \<open>>=\<close> cannot tell apart, are both \<open>Fin 0\<close>.
\<close>

datatype jsnum = NaN | NegInf | Fin real | PosInf

text \<open>JavaScript \<open>a < b\<close>: false as soon as one side is \<open>NaN\<close>.\<close>

fun js_lt :: "jsnum \<Rightarrow> jsnum \<Rightarrow> bool" where
  "js_lt NaN _ = False"
| "js_lt _ NaN = False"
| "js_lt NegInf NegInf = False"
| "js_lt NegInf _ = True"
| "js_lt (Fin a) (Fin b) = (a < b)"
| "js_lt (Fin _) PosInf = True"
| "js_lt (Fin _) NegInf = False"
| "js_lt PosInf _ = False"

text \<open>JavaScript \<open>a >= b\<close>: false as soon as one side is \<open>NaN\<close>, otherwise not \<open>a < b\<close>.\<close>

definition js_ge :: "jsnum \<Rightarrow> jsnum \<Rightarrow> bool" where
  "js_ge a b = (a \<noteq> NaN \<and> b \<noteq> NaN \<and> \<not> js_lt a b)"

section \<open>Steps and traces\<close>

text \<open>
  A step is the object \<open>{type, arr, info}\<close> pushed by a generator. Each constructor is one
  shape of that object as the generators build it: the \<open>type\<close> tag, the snapshot \<open>arr\<close>
  and the fields of \<open>info\<close>. The insert loop writes \<open>info: {i, parent}\<close> and the
  delete-min code writes \<open>info: {i, smaller}\<close> on a compare and \<open>info: {i, j}\<close> on a swap,
  so these are separate constructors.
\<close>

datatype step =
    Push (arr_of: "jsnum list") nat
  | CompareParent (arr_of: "jsnum list") nat nat
  | CompareSmaller (arr_of: "jsnum list") nat nat
  | SwapParent (arr_of: "jsnum list") nat nat
  | SwapJ (arr_of: "jsnum list") nat nat
  | Pop (arr_of: "jsnum list") nat
  | RemoveRoot (arr_of: "jsnum list") nat nat
  | Done (arr_of: "jsnum list")

datatype step_type = TPush | TCompare | TSwap | TPop | TRemoveRoot | TDone

fun type_of :: "step \<Rightarrow> step_type" where
  "type_of (Push _ _) = TPush"
| "type_of (CompareParent _ _ _) = TCompare"
| "type_of (CompareSmaller _ _ _) = TCompare"
| "type_of (SwapParent _ _ _) = TSwap"
| "type_of (SwapJ _ _ _) = TSwap"
| "type_of (Pop _ _) = TPop"
| "type_of (RemoveRoot _ _ _) = TRemoveRoot"
| "type_of (Done _) = TDone"

section \<open>The step generators\<close>

text \<open>
  \<open>generateInsertSteps\<close> and \<open>generateDeleteMinSteps\<close> are the same in both versions of
  the component (the local \<open>tmp\<close> is called \<open>valI\<close> in one of them). Each \<open>while\<close> loop is
  a recursive function over the loop's variables \<open>arr\<close> and \<open>i\<close> that returns the steps
  pushed from there on, the closing \<open>done\<close> step included. Every array access of the
  loops is in range: \<open>parent < i < length arr\<close> in the first, \<open>i < smaller < length arr\<close>
  in the second.
\<close>

definition parent_of :: "nat \<Rightarrow> nat" where
  "parent_of i = (i - 1) div 2"

function insertLoop :: "jsnum list \<Rightarrow> nat \<Rightarrow> step list" where
  "insertLoop arr i =
     (if i > 0 then
        (let parent = parent_of i in
         CompareParent arr i parent #
         (if js_lt (arr ! i) (arr ! parent) then
            (let tmp = arr ! i;
                 arr' = arr[i := arr ! parent, parent := tmp]
             in SwapParent arr' i parent # insertLoop arr' parent)
          else [Done arr]))
      else [Done arr])"
  by pat_completeness auto
termination
  by (relation "measure (\<lambda>(arr, i). i)") (auto simp: parent_of_def)

definition generateInsertSteps :: "jsnum list \<Rightarrow> jsnum \<Rightarrow> step list" where
  "generateInsertSteps startHeap insertedValue =
     (let arr = startHeap @ [insertedValue]
      in Push arr (length arr - 1) # insertLoop arr (length arr - 1))"

text \<open>The choice of the child to compare with, as the loop body of delete-min makes it.\<close>

definition smaller_of :: "jsnum list \<Rightarrow> nat \<Rightarrow> nat" where
  "smaller_of arr i =
     (let left = 2 * i + 1; right = 2 * i + 2
      in if right < length arr \<and> js_lt (arr ! right) (arr ! left) then right else left)"

function deleteLoop :: "jsnum list \<Rightarrow> nat \<Rightarrow> step list" where
  "deleteLoop arr i =
     (let left = 2 * i + 1 in
      if left \<ge> length arr then [Done arr]
      else
        (let smaller = smaller_of arr i in
         CompareSmaller arr i smaller #
         (if js_lt (arr ! smaller) (arr ! i) then
            (let tmp = arr ! i;
                 arr' = arr[i := arr ! smaller, smaller := tmp]
             in SwapJ arr' i smaller # deleteLoop arr' smaller)
          else [Done arr])))"
  by pat_completeness auto
termination
  by (relation "measure (\<lambda>(arr, i). length arr - i)")
     (auto simp: smaller_of_def Let_def split: if_splits)

definition generateDeleteMinSteps :: "jsnum list \<Rightarrow> step list" where
  "generateDeleteMinSteps startHeap =
     (if length startHeap = 0 then []
      else
        (let lastIndex = length startHeap - 1;
             s1 = RemoveRoot startHeap 0 lastIndex
         in if lastIndex = 0 then [s1, Done (butlast startHeap)]
            else
              (let rootVal = startHeap ! 0;
                   arr1 = startHeap[0 := startHeap ! lastIndex, lastIndex := rootVal];
                   arr2 = butlast arr1
               in s1 # SwapJ arr1 0 lastIndex # Pop arr2 lastIndex # deleteLoop arr2 0)))"

text \<open>The snapshot a trace ends with; \<open>None\<close> for the empty trace.\<close>

definition final_snapshot :: "step list \<Rightarrow> jsnum list option" where
  "final_snapshot steps = (if steps = [] then None else Some (arr_of (last steps)))"

text \<open>The min-heap invariant: every non-root element is \<open>>=\<close> its parent.\<close>

definition is_min_heap :: "jsnum list \<Rightarrow> bool" where
  "is_min_heap h = (\<forall>i \<in> {1..<length h}. js_ge (h ! i) (h ! parent_of i))"

text \<open>
  Playing a trace to its end leaves its final snapshot published as the heap; an empty trace
  is never loaded and leaves the heap as it was.
\<close>

definition apply_trace :: "jsnum list \<Rightarrow> step list \<Rightarrow> jsnum list" where
  "apply_trace heap steps = (case final_snapshot steps of None \<Rightarrow> heap | Some a \<Rightarrow> a)"

fun insert_seq :: "jsnum list \<Rightarrow> jsnum list \<Rightarrow> jsnum list" where
  "insert_seq heap [] = heap"
| "insert_seq heap (v # vs) = insert_seq (apply_trace heap (generateInsertSteps heap v)) vs"


text \<open>
  The invariant of the two loops: the heap property holds everywhere except between position
  \<open>i\<close> and its parent (bubble-up) or between \<open>i\<close> and its children (bubble-down), and
  the children of \<open>i\<close> already respect the parent of \<open>i\<close>.
\<close>

definition heap_except_up :: "jsnum list \<Rightarrow> nat \<Rightarrow> bool" where
  "heap_except_up h i =
     ((\<forall>j \<in> {1..<length h}. j \<noteq> i \<longrightarrow> js_ge (h ! j) (h ! parent_of j)) \<and>
      (\<forall>j \<in> {1..<length h}. parent_of j = i \<longrightarrow> 0 < i \<longrightarrow> js_ge (h ! j) (h ! parent_of i)))"

definition heap_except_down :: "jsnum list \<Rightarrow> nat \<Rightarrow> bool" where
  "heap_except_down h i =
     ((\<forall>j \<in> {1..<length h}. parent_of j \<noteq> i \<longrightarrow> js_ge (h ! j) (h ! parent_of j)) \<and>
      (\<forall>j \<in> {1..<length h}. parent_of j = i \<longrightarrow> 0 < i \<longrightarrow> js_ge (h ! j) (h ! parent_of i)))"


section \<open>The playback controller\<close>

text \<open>
  The repository holds two versions of the component \<open>HeapVisualizer\<close>. This section
  models the controller of the version whose header reads "cleaned & fixed": it has the
  buttons Play, Pause and Next Step and shows a pseudo-code text. The controller of the other
  version, \<open>src/HeapVisualizer.jsx\<close>, follows in the next subsection.

  The component keeps its published values in React state (\<open>heap\<close>, \<open>pseudo\<close>,
  \<open>running\<close>, \<open>speedMs\<close>, \<open>highlight\<close>) and its playback position in refs
  (\<open>stepsRef\<close>, \<open>stepIndexRef\<close>, \<open>timerRef\<close>). A handler runs to its end before the
  next event is taken, so each handler is a function from the controller's state to its state
  after the handler, the calls of the state setters applied in the order they are made.

  The browser's interval timers are part of the state: \<open>live\<close> is the set of handles that
  \<open>setInterval\<close> has returned and \<open>clearInterval\<close> has not yet cancelled, and \<open>nextId\<close>
  is the next handle. Handles are positive integers, so the test \<open>if (timerRef.current)\<close> is
  the test that the ref is not \<open>null\<close>.

  The highlight descriptor is \<open>{}\<close> or \<open>{type, indices}\<close>.
\<close>

datatype highlight = NoHighlight | Highlight step_type "nat list"

text \<open>
  The pseudo-code text is a template string. It is kept as its pieces: the literal text and
  the interpolated values, an array index, an array element, or \<open>undefined\<close>.
\<close>

datatype piece = Txt string | Idx nat | Val jsnum | Undefined

type_synonym timer = nat

record controller =
  heap :: "jsnum list"
  pseudo :: "piece list"
  running :: bool
  speedMs :: nat
  highlight :: highlight
  stepsRef :: "step list"
  stepIndexRef :: nat
  timerRef :: "timer option"
  live :: "timer set"
  nextId :: timer

definition initial :: controller where
  "initial = \<lparr>heap = [], pseudo = [], running = False, speedMs = 600, highlight = NoHighlight,
     stepsRef = [], stepIndexRef = 0, timerRef = None, live = {}, nextId = 1\<rparr>"

text \<open>
  \<open>clearInterval(timerRef.current)\<close>, which does nothing on \<open>null\<close>, and
  \<open>timerRef.current = setInterval(...)\<close>.
\<close>

definition clearInterval_ref :: "controller \<Rightarrow> controller" where
  "clearInterval_ref st =
     (case timerRef st of None \<Rightarrow> st | Some h \<Rightarrow> st\<lparr>live := live st - {h}\<rparr>)"

definition setInterval_ref :: "controller \<Rightarrow> controller" where
  "setInterval_ref st =
     st\<lparr>timerRef := Some (nextId st), live := insert (nextId st) (live st),
        nextId := Suc (nextId st)\<rparr>"

fun applyStep :: "step \<Rightarrow> controller \<Rightarrow> controller" where
  "applyStep (CompareParent arr a b) st =
     st\<lparr>heap := arr, highlight := Highlight TCompare [a, b],
        pseudo := [Txt ''# compare child & parent\<newline>if heap['', Idx a, Txt ''] < heap['', Idx b,
                   Txt '']:\<newline>    # swap on next step'']\<rparr>"
| "applyStep (CompareSmaller arr a b) st =
     st\<lparr>heap := arr, highlight := Highlight TCompare [a, b],
        pseudo := [Txt ''# compare child & parent\<newline>if heap['', Idx a, Txt ''] < heap['', Idx b,
                   Txt '']:\<newline>    # swap on next step'']\<rparr>"
| "applyStep (SwapParent arr a b) st =
     st\<lparr>heap := arr, highlight := Highlight TSwap [a, b],
        pseudo := [Txt ''# swap\<newline>swap(heap['', Idx a, Txt ''], heap['', Idx b, Txt ''])'']\<rparr>"
| "applyStep (SwapJ arr a b) st =
     st\<lparr>heap := arr, highlight := Highlight TSwap [a, b],
        pseudo := [Txt ''# swap\<newline>swap(heap['', Idx a, Txt ''], heap['', Idx b, Txt ''])'']\<rparr>"
| "applyStep (Push arr idx) st =
     st\<lparr>heap := arr, highlight := Highlight TPush [idx],
        pseudo := [Txt ''# insert new value\<newline>heap.append('',
                   (if idx < length arr then Val (arr ! idx) else Undefined), Txt '')'']\<rparr>"
| "applyStep (Pop arr removedIndex) st =
     st\<lparr>heap := arr, highlight := Highlight TPop [removedIndex],
        pseudo := [Txt ''# remove last\<newline>heap.pop()'']\<rparr>"
| "applyStep (RemoveRoot arr r l) st =
     st\<lparr>heap := arr, highlight := Highlight TRemoveRoot [r, l],
        pseudo := [Txt ''# delete-min begins\<newline>swap(heap[0], heap['', Idx l, Txt ''])'']\<rparr>"
| "applyStep (Done arr) st =
     st\<lparr>heap := arr, highlight := Highlight TDone [],
        pseudo := [Txt ''# heap property restored'']\<rparr>"

text \<open>
  \<open>startSteps\<close> and the functions that step through the trace. The call
  \<open>setHighlight((h) => h)\<close> near the end of \<open>startSteps\<close> keeps the highlight as it is.
\<close>

definition startSteps :: "step list \<Rightarrow> controller \<Rightarrow> controller" where
  "startSteps steps st =
     (if length steps = 0 then st
      else
        (let st1 = (if timerRef st \<noteq> None then (clearInterval_ref st)\<lparr>timerRef := None\<rparr> else st);
             st2 = st1\<lparr>stepsRef := steps\<rparr>;
             st3 = st2\<lparr>heap := arr_of (steps ! 0)\<rparr>;
             st4 = applyStep (steps ! 0) st3;
             st5 = st4\<lparr>stepIndexRef := 1\<rparr>
         in st5\<lparr>running := False\<rparr>))"

definition runStep :: "controller \<Rightarrow> controller" where
  "runStep st =
     (let steps = stepsRef st; idx = stepIndexRef st in
      if idx \<ge> length steps then
        (let st1 = (if timerRef st \<noteq> None then (clearInterval_ref st)\<lparr>timerRef := None\<rparr> else st)
         in st1\<lparr>running := False, highlight := NoHighlight\<rparr>)
      else (applyStep (steps ! idx) st)\<lparr>stepIndexRef := idx + 1\<rparr>)"

definition handlePlay :: "controller \<Rightarrow> controller" where
  "handlePlay st =
     (if running st then st
      else if stepIndexRef st \<ge> length (stepsRef st) then st
      else
        (let st1 = st\<lparr>running := True\<rparr>;
             st2 = (if timerRef st1 \<noteq> None then clearInterval_ref st1 else st1)
         in setInterval_ref st2))"

definition handlePause :: "controller \<Rightarrow> controller" where
  "handlePause st =
     (let st1 = (if timerRef st \<noteq> None then (clearInterval_ref st)\<lparr>timerRef := None\<rparr> else st)
      in st1\<lparr>running := False\<rparr>)"

definition handleNext :: "controller \<Rightarrow> controller" where
  "handleNext st =
     (let st1 = (if running st \<and> timerRef st \<noteq> None
                 then (clearInterval_ref st)\<lparr>timerRef := None, running := False\<rparr> else st)
      in runStep st1)"

text \<open>
  The handlers of the insert and delete buttons. \<open>handleInsert\<close> takes \<open>v\<close>, the result
  of \<open>Number(value)\<close> on the text of the input field; \<open>handleRandomInsert\<close> takes \<open>r\<close>,
  the integer that \<open>Math.floor(Math.random() * 100)\<close> has drawn.
\<close>

definition handleInsert :: "jsnum \<Rightarrow> controller \<Rightarrow> controller" where
  "handleInsert v st =
     (if v = NaN then st else startSteps (generateInsertSteps (heap st) v) st)"

definition handleRandomInsert :: "nat \<Rightarrow> controller \<Rightarrow> controller" where
  "handleRandomInsert r st = startSteps (generateInsertSteps (heap st) (Fin (real r))) st"

definition handleDeleteMin :: "controller \<Rightarrow> controller" where
  "handleDeleteMin st = startSteps (generateDeleteMinSteps (heap st)) st"

text \<open>
  The effect that depends on \<open>speedMs\<close> runs after a render in which \<open>speedMs\<close> has
  changed. \<open>setSpeedMs\<close> is that change followed by the effect; the conversion of the slider
  level into milliseconds stays outside.
\<close>

definition speedEffect :: "controller \<Rightarrow> controller" where
  "speedEffect st =
     (if \<not> running st then st
      else setInterval_ref (if timerRef st \<noteq> None then clearInterval_ref st else st))"

definition setSpeedMs :: "nat \<Rightarrow> controller \<Rightarrow> controller" where
  "setSpeedMs ms st = (if ms = speedMs st then st else speedEffect (st\<lparr>speedMs := ms\<rparr>))"

text \<open>
  The events the controller reacts to: the six buttons, a change of speed, and a tick of the
  interval timer with handle \<open>h\<close>, which calls \<open>runStep\<close> as long as the timer is live.
  \<open>run\<close> is the state after a sequence of events, from the state at mount. The effect
  that sets \<open>speedMs\<close> from the slider level right after mount is a \<open>SpeedMs\<close> event like
  any later one.
\<close>

datatype event =
    Insert jsnum | RandomInsert nat | DeleteMin | Play | Pause | Next | SpeedMs nat | Tick timer

fun fire :: "controller \<Rightarrow> event \<Rightarrow> controller" where
  "fire st (Insert v) = handleInsert v st"
| "fire st (RandomInsert r) = handleRandomInsert r st"
| "fire st DeleteMin = handleDeleteMin st"
| "fire st Play = handlePlay st"
| "fire st Pause = handlePause st"
| "fire st Next = handleNext st"
| "fire st (SpeedMs ms) = setSpeedMs ms st"
| "fire st (Tick h) = (if h \<in> live st then runStep st else st)"

definition run :: "event list \<Rightarrow> controller" where
  "run evs = foldl fire initial evs"


subsection \<open>The version of \<open>src/HeapVisualizer.jsx\<close>\<close>

text \<open>
  \<open>src/HeapVisualizer.jsx\<close> holds another version of the component, with the same
  generators and a controller of its own: no pseudo-code text, one Pause/Resume button
  (\<open>toggleRunning\<close>), a speed in milliseconds, and a \<open>startSteps\<close> that starts the timer
  itself. Its state and functions carry the prefix \<open>hv_\<close>.
\<close>

record hv_controller =
  hv_heap :: "jsnum list"
  hv_running :: bool
  hv_speed :: nat
  hv_highlight :: highlight
  hv_stepsRef :: "step list"
  hv_timerRef :: "timer option"
  hv_stepIndexRef :: nat
  hv_live :: "timer set"
  hv_nextId :: timer

definition hv_initial :: hv_controller where
  "hv_initial = \<lparr>hv_heap = [], hv_running = False, hv_speed = 600, hv_highlight = NoHighlight,
     hv_stepsRef = [], hv_timerRef = None, hv_stepIndexRef = 0, hv_live = {}, hv_nextId = 1\<rparr>"

definition hv_clearInterval_ref :: "hv_controller \<Rightarrow> hv_controller" where
  "hv_clearInterval_ref st =
     (case hv_timerRef st of None \<Rightarrow> st | Some h \<Rightarrow> st\<lparr>hv_live := hv_live st - {h}\<rparr>)"

definition hv_setInterval_ref :: "hv_controller \<Rightarrow> hv_controller" where
  "hv_setInterval_ref st =
     st\<lparr>hv_timerRef := Some (hv_nextId st), hv_live := insert (hv_nextId st) (hv_live st),
        hv_nextId := Suc (hv_nextId st)\<rparr>"

fun hv_highlight_of :: "step \<Rightarrow> highlight" where
  "hv_highlight_of (CompareParent _ i p) = Highlight TCompare [i, p]"
| "hv_highlight_of (CompareSmaller _ i s) = Highlight TCompare [i, s]"
| "hv_highlight_of (SwapJ _ i j) = Highlight TSwap [i, j]"
| "hv_highlight_of (SwapParent _ i p) = Highlight TSwap [i, p]"
| "hv_highlight_of (Push _ idx) = Highlight TPush [idx]"
| "hv_highlight_of (Pop _ removedIndex) = Highlight TPop [removedIndex]"
| "hv_highlight_of (RemoveRoot _ r l) = Highlight TRemoveRoot [r, l]"
| "hv_highlight_of (Done _) = Highlight TDone []"

definition hv_startSteps :: "step list \<Rightarrow> hv_controller \<Rightarrow> hv_controller" where
  "hv_startSteps steps st =
     (if length steps = 0 then st
      else
        (let st1 = st\<lparr>hv_stepsRef := steps\<rparr>;
             st2 = st1\<lparr>hv_stepIndexRef := 0\<rparr>;
             st3 = st2\<lparr>hv_running := True\<rparr>;
             st4 = st3\<lparr>hv_highlight := NoHighlight\<rparr>;
             st5 = st4\<lparr>hv_heap := arr_of (steps ! 0)\<rparr>;
             st6 = st5\<lparr>hv_stepIndexRef := 1\<rparr>
         in hv_setInterval_ref st6))"

definition hv_runStep :: "hv_controller \<Rightarrow> hv_controller" where
  "hv_runStep st =
     (let steps = hv_stepsRef st; idx = hv_stepIndexRef st in
      if idx \<ge> length steps then
        (hv_clearInterval_ref st)\<lparr>hv_timerRef := None, hv_running := False,
           hv_highlight := NoHighlight\<rparr>
      else
        (let s = steps ! idx in
         st\<lparr>hv_heap := arr_of s, hv_highlight := hv_highlight_of s, hv_stepIndexRef := idx + 1\<rparr>))"

definition hv_handleInsert :: "jsnum \<Rightarrow> hv_controller \<Rightarrow> hv_controller" where
  "hv_handleInsert v st = hv_startSteps (generateInsertSteps (hv_heap st) v) st"

definition hv_handleRandomInsert :: "nat \<Rightarrow> hv_controller \<Rightarrow> hv_controller" where
  "hv_handleRandomInsert r st = hv_startSteps (generateInsertSteps (hv_heap st) (Fin (real r))) st"

definition hv_handleDeleteMin :: "hv_controller \<Rightarrow> hv_controller" where
  "hv_handleDeleteMin st = hv_startSteps (generateDeleteMinSteps (hv_heap st)) st"

definition hv_toggleRunning :: "hv_controller \<Rightarrow> hv_controller" where
  "hv_toggleRunning st =
     (if \<not> hv_running st then
        (if hv_stepIndexRef st < length (hv_stepsRef st)
         then (hv_setInterval_ref st)\<lparr>hv_running := True\<rparr> else st)
      else (hv_clearInterval_ref st)\<lparr>hv_timerRef := None, hv_running := False\<rparr>)"

definition hv_setSpeed :: "nat \<Rightarrow> hv_controller \<Rightarrow> hv_controller" where
  "hv_setSpeed ms st =
     (if ms = hv_speed st then st
      else
        (let st1 = st\<lparr>hv_speed := ms\<rparr>
         in if hv_running st1 then hv_setInterval_ref (hv_clearInterval_ref st1) else st1))"

datatype hv_event =
    HvInsert jsnum | HvRandomInsert nat | HvDeleteMin | HvToggle | HvSpeed nat | HvTick timer

fun hv_fire :: "hv_controller \<Rightarrow> hv_event \<Rightarrow> hv_controller" where
  "hv_fire st (HvInsert v) = hv_handleInsert v st"
| "hv_fire st (HvRandomInsert r) = hv_handleRandomInsert r st"
| "hv_fire st HvDeleteMin = hv_handleDeleteMin st"
| "hv_fire st HvToggle = hv_toggleRunning st"
| "hv_fire st (HvSpeed ms) = hv_setSpeed ms st"
| "hv_fire st (HvTick h) = (if h \<in> hv_live st then hv_runStep st else st)"

definition hv_run :: "hv_event list \<Rightarrow> hv_controller" where
  "hv_run evs = foldl hv_fire hv_initial evs"

text \<open>Every live timer is the one the controller holds in \<open>timerRef\<close>.\<close>

definition one_timer :: "controller \<Rightarrow> bool" where
  "one_timer st = (live st \<subseteq> set_option (timerRef st))"


text \<open>
  What the loops do around a compare step. \<open>compare_outcome\<close> is the step a compare
  step decides on: the exchange of the compared pair when the child is smaller, the closing
  done step on the unchanged array otherwise. \<open>decided_by s t\<close> says that the swap \<open>t\<close>
  is announced by the step \<open>s\<close> before it: a compare of the same pair, or, for the
  unconditional exchange of root and last element that opens delete-min, the removeRoot step.
\<close>

fun compare_outcome :: "step \<Rightarrow> step option" where
  "compare_outcome (CompareParent a i p) =
     Some (if js_lt (a ! i) (a ! p) then SwapParent (a[i := a ! p, p := a ! i]) i p else Done a)"
| "compare_outcome (CompareSmaller a i s) =
     Some (if js_lt (a ! s) (a ! i) then SwapJ (a[i := a ! s, s := a ! i]) i s else Done a)"
| "compare_outcome _ = None"

fun decided_by :: "step \<Rightarrow> step \<Rightarrow> bool" where
  "decided_by (CompareParent _ i p) (SwapParent _ i' p') = (i = i' \<and> p = p')"
| "decided_by (CompareSmaller _ i s) (SwapJ _ i' j) = (i = i' \<and> s = j)"
| "decided_by (RemoveRoot _ r l) (SwapJ _ i j) = (i = r \<and> j = l)"
| "decided_by _ _ = False"

definition step_pair_ok :: "step \<Rightarrow> step \<Rightarrow> bool" where
  "step_pair_ok s t =
     ((type_of t = TCompare \<longrightarrow> arr_of t = arr_of s) \<and>
      (type_of s = TCompare \<longrightarrow> compare_outcome s = Some t) \<and>
      (type_of t = TSwap \<longrightarrow> decided_by s t))"


text \<open>
  Where an iteration of a loop begins. After a step that has just placed the moving element
  (the push and each swap of the insert loop, the pop and each swap of the delete-min loop),
  \<open>iteration_start\<close> is the step the loop pushes next: the compare of the next iteration
  when the loop condition holds (\<open>i > 0\<close>, respectively \<open>left < arr.length\<close>), the closing
  done step on the same array when it does not.
\<close>

fun iteration_start :: "step \<Rightarrow> step" where
  "iteration_start (Push a idx) =
     (if idx > 0 then CompareParent a idx (parent_of idx) else Done a)"
| "iteration_start (SwapParent a i p) =
     (if p > 0 then CompareParent a p (parent_of p) else Done a)"
| "iteration_start (Pop a removedIndex) =
     (if 2 * 0 + 1 < length a then CompareSmaller a 0 (smaller_of a 0) else Done a)"
| "iteration_start (SwapJ a i j) =
     (if 2 * j + 1 < length a then CompareSmaller a j (smaller_of a j) else Done a)"
| "iteration_start s = Done (arr_of s)"

definition iteration_pair :: "step \<Rightarrow> step \<Rightarrow> bool" where
  "iteration_pair s t = (type_of s \<in> {TPush, TPop, TSwap} \<longrightarrow> t = iteration_start s)"


section \<open>Comparison and index arithmetic\<close>

declare insertLoop.simps [simp del]
declare deleteLoop.simps [simp del]

lemma js_lt_imp_ge: "js_lt a b \<Longrightarrow> js_ge b a"
  by (cases a; cases b) (auto simp: js_ge_def)

lemma js_ge_trans: "js_ge a b \<Longrightarrow> js_ge b c \<Longrightarrow> js_ge a c"
  by (cases a; cases b; cases c) (auto simp: js_ge_def)

lemma js_ge_not_NaN: "js_ge a b \<Longrightarrow> a \<noteq> NaN \<and> b \<noteq> NaN"
  by (simp add: js_ge_def)

lemma js_lt_not_NaN: "js_lt a b \<Longrightarrow> a \<noteq> NaN \<and> b \<noteq> NaN"
  by (cases a; cases b) auto

lemma parent_of_less: "0 < i \<Longrightarrow> parent_of i < i"
  by (simp add: parent_of_def)

lemma parent_of_children: "0 < j \<Longrightarrow> parent_of j = i \<longleftrightarrow> j = 2 * i + 1 \<or> j = 2 * i + 2"
  unfolding parent_of_def by presburger

lemma insertLoop_not_Nil: "insertLoop arr i \<noteq> []"
  by (subst insertLoop.simps) (simp add: Let_def)

lemma deleteLoop_not_Nil: "deleteLoop arr i \<noteq> []"
  by (subst deleteLoop.simps) (simp add: Let_def)

lemma js_ge_total: "a \<noteq> NaN \<Longrightarrow> b \<noteq> NaN \<Longrightarrow> \<not> js_lt a b \<Longrightarrow> js_ge a b"
  by (simp add: js_ge_def)

lemma js_ge_refl: "a \<noteq> NaN \<Longrightarrow> js_ge a a"
  by (cases a) (auto simp: js_ge_def)

lemma smaller_of_cases: "smaller_of h i = 2 * i + 1 \<or> smaller_of h i = 2 * i + 2 \<and> 2 * i + 2 < length h"
  by (simp add: smaller_of_def Let_def)

lemma smaller_of_bounds: "2 * i + 1 < length h \<Longrightarrow> i < smaller_of h i \<and> smaller_of h i < length h"
  by (simp add: smaller_of_def Let_def)

lemma parent_of_smaller: "parent_of (smaller_of h i) = i"
  by (simp add: smaller_of_def Let_def parent_of_def)

lemma smaller_of_least:
  assumes "2 * i + 1 < length h" "NaN \<notin> set h" "j \<in> {1..<length h}" "parent_of j = i"
  shows "js_ge (h ! j) (h ! smaller_of h i)"
proof -
  have nn: "h ! k \<noteq> NaN" if "k < length h" for k
    using assms(2) that nth_mem by metis
  from assms(3,4) have "j = 2 * i + 1 \<or> j = 2 * i + 2"
    using parent_of_children[of j i] by simp
  then show ?thesis
  proof
    assume j: "j = 2 * i + 1"
    show ?thesis
    proof (cases "2 * i + 2 < length h \<and> js_lt (h ! (2 * i + 2)) (h ! (2 * i + 1))")
      case True
      then show ?thesis using j js_lt_imp_ge by (simp add: smaller_of_def Let_def)
    next
      case False
      then show ?thesis using j assms(1) nn js_ge_refl by (auto simp add: smaller_of_def Let_def)
    qed
  next
    assume j: "j = 2 * i + 2"
    then have r: "2 * i + 2 < length h" using assms(3) by simp
    show ?thesis
    proof (cases "js_lt (h ! (2 * i + 2)) (h ! (2 * i + 1))")
      case True
      then show ?thesis using j r nn js_ge_refl by (simp add: smaller_of_def Let_def)
    next
      case False
      then show ?thesis using j r assms(1) nn js_ge_total by (simp add: smaller_of_def Let_def)
    qed
  qed
qed


section \<open>One iteration of each loop keeps the weakened invariant\<close>

lemma heap_except_up_swap:
  assumes inv: "heap_except_up h i" and i: "0 < i" "i < length h"
    and lt: "js_lt (h ! i) (h ! parent_of i)"
  shows "heap_except_up (h[i := h ! parent_of i, parent_of i := h ! i]) (parent_of i)"
proof -
  let ?p = "parent_of i"
  let ?h' = "h[i := h ! ?p, ?p := h ! i]"
  have p: "?p < i" using i parent_of_less by simp
  have ge_pi: "js_ge (h ! ?p) (h ! i)" using lt by (rule js_lt_imp_ge)
  have A: "js_ge (h ! j) (h ! parent_of j)" if "j \<in> {1..<length h}" "j \<noteq> i" for j
    using inv that by (simp add: heap_except_up_def)
  have B: "js_ge (h ! j) (h ! ?p)" if "j \<in> {1..<length h}" "parent_of j = i" for j
    using inv that i by (simp add: heap_except_up_def)
  have first: "js_ge (?h' ! j) (?h' ! parent_of j)" if j: "j \<in> {1..<length h}" "j \<noteq> ?p" for j
  proof -
    have pj: "parent_of j < j" using j parent_of_less by simp
    consider "j = i" | "j \<noteq> i" "parent_of j = i" | "j \<noteq> i" "parent_of j = ?p" | "j \<noteq> i" "parent_of j \<noteq> i" "parent_of j \<noteq> ?p"
      by blast
    then show ?thesis
    proof cases
      case 1
      then show ?thesis using p i ge_pi by simp
    next
      case 2
      then show ?thesis using p i j B[OF j(1)] pj by simp
    next
      case 3
      then have "js_ge (h ! j) (h ! i)" using A[OF j(1)] ge_pi js_ge_trans by metis
      then show ?thesis using 3 p i j pj by simp
    next
      case 4
      then show ?thesis using A[OF j(1)] j pj p i by simp
    qed
  qed
  have second: "js_ge (?h' ! j) (?h' ! parent_of ?p)"
    if j: "j \<in> {1..<length h}" "parent_of j = ?p" "0 < ?p" for j
  proof -
    have pp: "parent_of ?p < ?p" using j parent_of_less[of ?p] by simp
    have pge: "js_ge (h ! ?p) (h ! parent_of ?p)" using A[of ?p] j p i by simp
    have pj: "parent_of j < j" using j parent_of_less[of j] by simp
    show ?thesis
    proof (cases "j = i")
      case True
      then show ?thesis using pge pp p i by simp
    next
      case False
      then have "js_ge (h ! j) (h ! ?p)" using A[OF j(1)] j by simp
      then have "js_ge (h ! j) (h ! parent_of ?p)" using pge js_ge_trans by blast
      then show ?thesis using False pp p i pj j by simp
    qed
  qed
  show ?thesis unfolding heap_except_up_def using first second by simp
qed

lemma heap_except_down_swap:
  assumes inv: "heap_except_down h i" and left: "2 * i + 1 < length h"
    and nn: "NaN \<notin> set h"
    and lt: "js_lt (h ! smaller_of h i) (h ! i)"
  shows "heap_except_down (h[i := h ! smaller_of h i, smaller_of h i := h ! i]) (smaller_of h i)"
proof -
  let ?s = "smaller_of h i"
  let ?h' = "h[i := h ! ?s, ?s := h ! i]"
  have s: "i < ?s" "?s < length h" using smaller_of_bounds[OF left] by simp_all
  have ps: "parent_of ?s = i" by (rule parent_of_smaller)
  have A: "js_ge (h ! j) (h ! parent_of j)" if "j \<in> {1..<length h}" "parent_of j \<noteq> i" for j
    using inv that by (simp add: heap_except_down_def)
  have B: "js_ge (h ! j) (h ! parent_of i)" if "j \<in> {1..<length h}" "parent_of j = i" "0 < i" for j
    using inv that by (simp add: heap_except_down_def)
  have first: "js_ge (?h' ! j) (?h' ! parent_of j)" if j: "j \<in> {1..<length h}" "parent_of j \<noteq> ?s" for j
  proof -
    have pj: "parent_of j < j" using j parent_of_less[of j] by simp
    consider "j = ?s" | "j \<noteq> ?s" "parent_of j = i" | "j = i" | "j \<noteq> ?s" "j \<noteq> i" "parent_of j \<noteq> i"
      by blast
    then show ?thesis
    proof cases
      case 1
      then show ?thesis using s ps lt js_lt_imp_ge by simp
    next
      case 2
      then have "j \<noteq> i" using pj by auto
      moreover have "js_ge (h ! j) (h ! ?s)" using smaller_of_least[OF left nn j(1) 2(2)] .
      ultimately show ?thesis using 2 s by simp
    next
      case 3
      then have i0: "0 < i" using j by simp
      have pi: "parent_of i < i" using i0 parent_of_less by simp
      have "js_ge (h ! ?s) (h ! parent_of i)" using B[of ?s] s ps i0 by simp
      then show ?thesis using 3 s pi by simp
    next
      case 4
      then show ?thesis using A[OF j(1)] j s pj by simp
    qed
  qed
  have second: "js_ge (?h' ! j) (?h' ! parent_of ?s)"
    if j: "j \<in> {1..<length h}" "parent_of j = ?s" for j
  proof -
    have pj: "parent_of j < j" using j parent_of_less[of j] by simp
    have "js_ge (h ! j) (h ! ?s)" using A[OF j(1)] j s by simp
    then show ?thesis using ps s j pj by simp
  qed
  show ?thesis unfolding heap_except_down_def using first second by simp
qed

lemma heap_except_down_stop:
  assumes inv: "heap_except_down h i" and nn: "NaN \<notin> set h"
    and stop: "length h \<le> 2 * i + 1 \<or> \<not> js_lt (h ! smaller_of h i) (h ! i)"
  shows "is_min_heap h"
  unfolding is_min_heap_def
proof
  fix j assume j: "j \<in> {1..<length h}"
  have nnk: "h ! k \<noteq> NaN" if "k < length h" for k
    using nn that nth_mem by metis
  show "js_ge (h ! j) (h ! parent_of j)"
  proof (cases "parent_of j = i")
    case False
    then show ?thesis using inv j by (simp add: heap_except_down_def)
  next
    case True
    then have jc: "j = 2 * i + 1 \<or> j = 2 * i + 2" using j parent_of_children[of j i] by simp
    then have left: "2 * i + 1 < length h" using j by auto
    then have nlt: "\<not> js_lt (h ! smaller_of h i) (h ! i)" using stop by simp
    have "js_ge (h ! smaller_of h i) (h ! i)"
      using nlt nnk smaller_of_bounds[OF left] by (intro js_ge_total) auto
    moreover have "js_ge (h ! j) (h ! smaller_of h i)"
      using smaller_of_least[OF left nn j True] .
    ultimately show ?thesis using True js_ge_trans by blast
  qed
qed

lemma heap_except_up_stop:
  assumes inv: "heap_except_up h i" and nn: "NaN \<notin> set h" and i: "i < length h"
    and stop: "i = 0 \<or> \<not> js_lt (h ! i) (h ! parent_of i)"
  shows "is_min_heap h"
  unfolding is_min_heap_def
proof
  fix j assume j: "j \<in> {1..<length h}"
  have nnk: "h ! k \<noteq> NaN" if "k < length h" for k
    using nn that nth_mem by metis
  show "js_ge (h ! j) (h ! parent_of j)"
  proof (cases "j = i")
    case False
    then show ?thesis using inv j by (simp add: heap_except_up_def)
  next
    case True
    then have "0 < i" using j by simp
    then have "\<not> js_lt (h ! i) (h ! parent_of i)" "parent_of i < length h"
      using stop i parent_of_less[of i] by auto
    then show ?thesis using True nnk i by (intro js_ge_total) auto
  qed
qed

lemma is_min_heap_no_NaN:
  assumes "is_min_heap h" "2 \<le> length h"
  shows "NaN \<notin> set h"
proof
  assume "NaN \<in> set h"
  then obtain k where k: "k < length h" "h ! k = NaN" by (auto simp: in_set_conv_nth)
  show False
  proof (cases "k = 0")
    case True
    have "1 \<in> {1..<length h}" using assms(2) by simp
    then have "js_ge (h ! 1) (h ! parent_of 1)" using assms(1) unfolding is_min_heap_def by blast
    then show False using True k js_ge_not_NaN by (simp add: parent_of_def)
  next
    case False
    then have "k \<in> {1..<length h}" using k by simp
    then have "js_ge (h ! k) (h ! parent_of k)" using assms(1) unfolding is_min_heap_def by blast
    then show False using k js_ge_not_NaN by auto
  qed
qed

section \<open>The loops as a whole\<close>

lemma insertLoop_stop:
  "i = 0 \<or> \<not> js_lt (arr ! i) (arr ! parent_of i) \<Longrightarrow> last (insertLoop arr i) = Done arr"
  by (subst insertLoop.simps) (auto simp: Let_def)

lemma insertLoop_swap:
  "0 < i \<Longrightarrow> js_lt (arr ! i) (arr ! parent_of i) \<Longrightarrow>
   insertLoop arr i =
     CompareParent arr i (parent_of i) #
     SwapParent (arr[i := arr ! parent_of i, parent_of i := arr ! i]) i (parent_of i) #
     insertLoop (arr[i := arr ! parent_of i, parent_of i := arr ! i]) (parent_of i)"
  by (subst insertLoop.simps) (simp add: Let_def)

lemma deleteLoop_stop:
  "length arr \<le> 2 * i + 1 \<or> \<not> js_lt (arr ! smaller_of arr i) (arr ! i) \<Longrightarrow>
   last (deleteLoop arr i) = Done arr"
  by (subst deleteLoop.simps) (auto simp: Let_def)

lemma deleteLoop_swap:
  "2 * i + 1 < length arr \<Longrightarrow> js_lt (arr ! smaller_of arr i) (arr ! i) \<Longrightarrow>
   deleteLoop arr i =
     CompareSmaller arr i (smaller_of arr i) #
     SwapJ (arr[i := arr ! smaller_of arr i, smaller_of arr i := arr ! i]) i (smaller_of arr i) #
     deleteLoop (arr[i := arr ! smaller_of arr i, smaller_of arr i := arr ! i]) (smaller_of arr i)"
  by (subst deleteLoop.simps) (simp add: Let_def)

text \<open>Induction along the iterations of the loops, for a property of the final snapshot.\<close>

lemma insertLoop_final_induct [consumes 1, case_names stop swap]:
  assumes i: "i < length arr"
    and stop: "\<And>arr i. i < length arr \<Longrightarrow> i = 0 \<or> \<not> js_lt (arr ! i) (arr ! parent_of i) \<Longrightarrow> P arr i arr"
    and swap: "\<And>arr i r. i < length arr \<Longrightarrow> 0 < i \<Longrightarrow> js_lt (arr ! i) (arr ! parent_of i) \<Longrightarrow>
        P (arr[i := arr ! parent_of i, parent_of i := arr ! i]) (parent_of i) r \<Longrightarrow> P arr i r"
  shows "P arr i (arr_of (last (insertLoop arr i)))"
  using i
proof (induction arr i rule: insertLoop.induct)
  case (1 arr i)
  show ?case
  proof (cases "0 < i \<and> js_lt (arr ! i) (arr ! parent_of i)")
    case True
    let ?arr' = "arr[i := arr ! parent_of i, parent_of i := arr ! i]"
    have p: "parent_of i < length ?arr'" using True "1.prems" parent_of_less[of i] by simp
    have "P ?arr' (parent_of i) (arr_of (last (insertLoop ?arr' (parent_of i))))"
      using "1.IH"[OF _ refl _ refl refl] True p by (simp add: parent_of_def)
    then have "P arr i (arr_of (last (insertLoop ?arr' (parent_of i))))"
      using swap "1.prems" True by blast
    then show ?thesis using True by (simp add: insertLoop_swap insertLoop_not_Nil)
  next
    case False
    then show ?thesis using stop[OF "1.prems"] by (simp add: insertLoop_stop)
  qed
qed

lemma deleteLoop_final_induct [case_names stop swap]:
  assumes stop: "\<And>arr i. length arr \<le> 2 * i + 1 \<or> \<not> js_lt (arr ! smaller_of arr i) (arr ! i) \<Longrightarrow> P arr i arr"
    and swap: "\<And>arr i r. 2 * i + 1 < length arr \<Longrightarrow> js_lt (arr ! smaller_of arr i) (arr ! i) \<Longrightarrow>
        P (arr[i := arr ! smaller_of arr i, smaller_of arr i := arr ! i]) (smaller_of arr i) r \<Longrightarrow> P arr i r"
  shows "P arr i (arr_of (last (deleteLoop arr i)))"
proof (induction arr i rule: deleteLoop.induct)
  case (1 arr i)
  show ?case
  proof (cases "2 * i + 1 < length arr \<and> js_lt (arr ! smaller_of arr i) (arr ! i)")
    case True
    let ?s = "smaller_of arr i"
    let ?arr' = "arr[i := arr ! ?s, ?s := arr ! i]"
    have "P ?arr' ?s (arr_of (last (deleteLoop ?arr' ?s)))"
      using "1.IH"[OF refl _ refl _ refl refl] True by simp
    then have "P arr i (arr_of (last (deleteLoop ?arr' ?s)))"
      using swap True by blast
    then show ?thesis using True by (simp add: deleteLoop_swap deleteLoop_not_Nil)
  next
    case False
    then have "length arr \<le> 2 * i + 1 \<or> \<not> js_lt (arr ! smaller_of arr i) (arr ! i)" by auto
    then show ?thesis using stop by (simp add: deleteLoop_stop)
  qed
qed

lemma swap_mset: "i < length h \<Longrightarrow> j < length h \<Longrightarrow> mset (h[i := h ! j, j := h ! i]) = mset h"
  using mset_swap[of j h i] by simp

lemma insertLoop_mset: "i < length arr \<Longrightarrow> mset (arr_of (last (insertLoop arr i))) = mset arr"
proof (induction rule: insertLoop_final_induct)
  case (stop arr i)
  show ?case by simp
next
  case (swap arr i r)
  then show ?case using parent_of_less[of i] by (simp add: swap_mset)
qed

lemma deleteLoop_mset: "mset (arr_of (last (deleteLoop arr i))) = mset arr"
proof (induction rule: deleteLoop_final_induct)
  case (stop arr i)
  show ?case by simp
next
  case (swap arr i r)
  then show ?case using smaller_of_bounds[of i arr] by (simp add: swap_mset)
qed

lemma insertLoop_heap:
  "i < length arr \<Longrightarrow> NaN \<notin> set arr \<Longrightarrow> heap_except_up arr i \<Longrightarrow>
   is_min_heap (arr_of (last (insertLoop arr i)))"
proof (induction rule: insertLoop_final_induct)
  case (stop arr i)
  then show ?case using heap_except_up_stop by blast
next
  case (swap arr i r)
  let ?arr' = "arr[i := arr ! parent_of i, parent_of i := arr ! i]"
  have "mset ?arr' = mset arr" using swap parent_of_less[of i] by (simp add: swap_mset)
  then have "set ?arr' = set arr" by (rule mset_eq_setD)
  then show ?case using swap heap_except_up_swap by simp
qed

lemma deleteLoop_heap:
  "NaN \<notin> set arr \<Longrightarrow> heap_except_down arr i \<Longrightarrow>
   is_min_heap (arr_of (last (deleteLoop arr i)))"
proof (induction rule: deleteLoop_final_induct)
  case (stop arr i)
  then show ?case using heap_except_down_stop by blast
next
  case (swap arr i r)
  let ?s = "smaller_of arr i"
  let ?arr' = "arr[i := arr ! ?s, ?s := arr ! i]"
  have "mset ?arr' = mset arr" using swap smaller_of_bounds[of i arr] by (simp add: swap_mset)
  then have "set ?arr' = set arr" by (rule mset_eq_setD)
  then show ?case using swap heap_except_down_swap by simp
qed

section \<open>Insertion\<close>

lemma final_insert:
  "final_snapshot (generateInsertSteps h v) = Some (arr_of (last (insertLoop (h @ [v]) (length h))))"
  by (simp add: final_snapshot_def generateInsertSteps_def Let_def insertLoop_not_Nil)

lemma heap_except_up_append:
  assumes "is_min_heap h"
  shows "heap_except_up (h @ [v]) (length h)"
  unfolding heap_except_up_def
proof (intro conjI ballI impI)
  fix j assume j: "j \<in> {1..<length (h @ [v])}" "j \<noteq> length h"
  then have jl: "j \<in> {1..<length h}" by simp
  then have "parent_of j < length h" using parent_of_less[of j] by simp
  moreover have "js_ge (h ! j) (h ! parent_of j)" using assms jl unfolding is_min_heap_def by blast
  ultimately show "js_ge ((h @ [v]) ! j) ((h @ [v]) ! parent_of j)" using jl by (simp add: nth_append)
next
  fix j assume j: "j \<in> {1..<length (h @ [v])}" "parent_of j = length h"
  then have "j = 2 * length h + 1 \<or> j = 2 * length h + 2" using parent_of_children[of j "length h"] by simp
  then have False using j(1) by auto
  then show "js_ge ((h @ [v]) ! j) ((h @ [v]) ! parent_of (length h))" ..
qed

lemma insert_preserves:
  assumes "is_min_heap h" "NaN \<notin> set h" "v \<noteq> NaN"
  shows "is_min_heap (apply_trace h (generateInsertSteps h v)) \<and>
         NaN \<notin> set (apply_trace h (generateInsertSteps h v))"
proof -
  let ?fin = "arr_of (last (insertLoop (h @ [v]) (length h)))"
  have nn: "NaN \<notin> set (h @ [v])" using assms by auto
  have "is_min_heap ?fin"
    using insertLoop_heap[of "length h" "h @ [v]"] nn heap_except_up_append[OF assms(1)] by simp
  moreover have "mset ?fin = mset (h @ [v])" using insertLoop_mset[of "length h" "h @ [v]"] by simp
  then have "set ?fin = set (h @ [v])" by (rule mset_eq_setD)
  ultimately show ?thesis using nn by (simp add: apply_trace_def final_insert)
qed

lemma insert_seq_heap:
  "is_min_heap h \<Longrightarrow> NaN \<notin> set h \<Longrightarrow> \<forall>v \<in> set vs. v \<noteq> NaN \<Longrightarrow> is_min_heap (insert_seq h vs)"
proof (induction vs arbitrary: h)
  case Nil
  then show ?case by simp
next
  case (Cons v vs)
  then show ?case using insert_preserves[of h v] by simp
qed

text \<open>
  Claim C2. Start from the empty array and insert any finite sequence of numbers other than
  \<open>NaN\<close>, one at a time, each insert starting from the final snapshot of the trace before
  it. The array reached satisfies the min-heap invariant: every element at a position
  \<open>i > 0\<close> is \<open>>=\<close> the element at position \<open>floor((i - 1) / 2)\<close>.
\<close>

theorem insert_sequence_is_min_heap:
  "\<forall>v \<in> set vs. v \<noteq> NaN \<Longrightarrow> is_min_heap (insert_seq [] vs)"
  by (rule insert_seq_heap) (simp_all add: is_min_heap_def)

theorem insert_sequence_is_min_heap_witness:
  "insert_seq [] [Fin 5, Fin 3, Fin 8, Fin 1, Fin 3] = [Fin 1, Fin 3, Fin 8, Fin 5, Fin 3] \<and>
   is_min_heap [Fin 1, Fin 3, Fin 8, Fin 5, Fin 3]"
proof -
  have h: "\<forall>v \<in> set [Fin 5, Fin 3, Fin 8, Fin 1, Fin 3]. v \<noteq> NaN" by simp
  have e: "insert_seq [] [Fin 5, Fin 3, Fin 8, Fin 1, Fin 3] = [Fin 1, Fin 3, Fin 8, Fin 5, Fin 3]"
    by code_simp
  show ?thesis using e insert_sequence_is_min_heap[OF h] by simp
qed

text \<open>
  Claim C9. For every input array and every inserted value, the trace of
  \<open>generateInsertSteps\<close> has a final snapshot, and that snapshot holds exactly the elements
  of the input array plus one more occurrence of the inserted value.
\<close>

theorem insert_final_is_permutation:
  "\<exists>fin. final_snapshot (generateInsertSteps startHeap insertedValue) = Some fin \<and>
         mset fin = add_mset insertedValue (mset startHeap)"
  using insertLoop_mset[of "length startHeap" "startHeap @ [insertedValue]"]
  by (simp add: final_insert)

section \<open>Delete-min\<close>

lemma final_delete:
  "2 \<le> length h \<Longrightarrow>
   final_snapshot (generateDeleteMinSteps h) =
     Some (arr_of (last (deleteLoop (butlast (h[0 := h ! (length h - 1), length h - 1 := h ! 0])) 0)))"
  by (auto simp add: final_snapshot_def generateDeleteMinSteps_def Let_def deleteLoop_not_Nil)

lemma butlast_swap_root:
  assumes "2 \<le> length h"
  shows "butlast (h[0 := h ! (length h - 1), length h - 1 := h ! 0]) = (butlast h)[0 := last h]"
proof -
  have "h \<noteq> []" using assms by auto
  then have l: "h ! (length h - 1) = last h" by (simp add: last_conv_nth)
  have "butlast (h[0 := last h, length h - 1 := h ! 0]) = butlast (h[0 := last h])"
    by (simp add: butlast_list_update)
  also have "\<dots> = (butlast h)[0 := last h]"
    using assms by (simp add: butlast_list_update)
  finally show ?thesis using l by simp
qed

lemma mset_butlast_root:
  assumes "2 \<le> length h"
  shows "add_mset (h ! 0) (mset ((butlast h)[0 := last h])) = mset h"
proof -
  have ne: "h \<noteq> []" using assms by auto
  have b: "0 < length (butlast h)" using assms by simp
  have "mset ((butlast h)[0 := last h]) = add_mset (last h) (mset (butlast h) - {#butlast h ! 0#})"
    using b by (simp add: mset_update)
  moreover have r: "butlast h ! 0 = h ! 0" using b by (simp add: nth_butlast)
  moreover have "h ! 0 \<in># mset (butlast h)" using b nth_mem[of 0 "butlast h"] r by (metis set_mset_mset)
  moreover have "mset h = add_mset (last h) (mset (butlast h))"
    using ne by (metis append_butlast_last_id mset.simps(2) mset_append union_mset_add_mset_right add.right_neutral mset.simps(1))
  ultimately show ?thesis by simp
qed

lemma heap_except_down_root:
  assumes h: "is_min_heap h" and l: "2 \<le> length h"
  shows "heap_except_down ((butlast h)[0 := last h]) 0"
  unfolding heap_except_down_def
proof (intro conjI ballI impI)
  fix j assume j: "j \<in> {1..<length ((butlast h)[0 := last h])}" "parent_of j \<noteq> 0"
  then have jl: "j < length h - 1" "0 < j" by simp_all
  have pj: "parent_of j < j" using jl parent_of_less by simp
  have "j \<in> {1..<length h}" using jl by simp
  then have "js_ge (h ! j) (h ! parent_of j)" using h unfolding is_min_heap_def by blast
  then show "js_ge ((butlast h)[0 := last h] ! j) ((butlast h)[0 := last h] ! parent_of j)"
    using jl pj j(2) by (simp add: nth_butlast)
next
  fix j assume "(0::nat) < 0"
  then show "js_ge ((butlast h)[0 := last h] ! j) ((butlast h)[0 := last h] ! parent_of 0)" by simp
qed

text \<open>
  Claim C1. For every non-empty array that satisfies the min-heap invariant, the trace of
  \<open>generateDeleteMinSteps\<close> has a final snapshot; that snapshot satisfies the min-heap
  invariant, has one element less, and is the input with one occurrence of the original
  \<open>heap[0]\<close> taken out: the removed value is the original root.
\<close>

theorem delete_min_restores_heap:
  assumes "startHeap \<noteq> []" and "is_min_heap startHeap"
  shows "\<exists>fin. final_snapshot (generateDeleteMinSteps startHeap) = Some fin \<and>
           is_min_heap fin \<and>
           length fin = length startHeap - 1 \<and>
           mset startHeap = add_mset (startHeap ! 0) (mset fin)"
proof (cases "length startHeap = 1")
  case True
  then obtain x where x: "startHeap = [x]" by (cases startHeap) auto
  show ?thesis unfolding x
    by (simp add: final_snapshot_def generateDeleteMinSteps_def is_min_heap_def)
next
  case False
  moreover have "0 < length startHeap" using assms(1) by simp
  ultimately have l: "2 \<le> length startHeap" by linarith
  let ?a = "(butlast startHeap)[0 := last startHeap]"
  let ?fin = "arr_of (last (deleteLoop ?a 0))"
  have fin: "final_snapshot (generateDeleteMinSteps startHeap) = Some ?fin"
    using final_delete[OF l] butlast_swap_root[OF l] by simp
  have nn: "NaN \<notin> set startHeap" using is_min_heap_no_NaN[OF assms(2) l] .
  have m: "mset ?fin = mset ?a" by (rule deleteLoop_mset)
  have ma: "add_mset (startHeap ! 0) (mset ?a) = mset startHeap" by (rule mset_butlast_root[OF l])
  have "set ?a \<subseteq> set startHeap"
    using ma by (metis set_mset_mset set_mset_add_mset_insert subset_insertI)
  then have nna: "NaN \<notin> set ?a" using nn by blast
  have heap: "is_min_heap ?fin"
    using deleteLoop_heap[OF nna heap_except_down_root[OF assms(2) l]] .
  have "length ?fin = length ?a" using m by (rule mset_eq_length)
  then have len: "length ?fin = length startHeap - 1" by simp
  show ?thesis using fin heap len m ma by simp
qed

theorem delete_min_restores_heap_witness:
  "final_snapshot (generateDeleteMinSteps [Fin 0, Fin 1, Fin 2, Fin 7, Fin 3]) =
     Some [Fin 1, Fin 3, Fin 2, Fin 7] \<and>
   is_min_heap [Fin 1, Fin 3, Fin 2, Fin 7] \<and>
   mset [Fin 0, Fin 1, Fin 2, Fin 7, Fin 3] = add_mset (Fin 0) (mset [Fin 1, Fin 3, Fin 2, Fin 7])"
proof -
  have ne: "[Fin 0, Fin 1, Fin 2, Fin 7, Fin 3] \<noteq> []" by simp
  have h: "is_min_heap [Fin 0, Fin 1, Fin 2, Fin 7, Fin 3]" by code_simp
  have e: "final_snapshot (generateDeleteMinSteps [Fin 0, Fin 1, Fin 2, Fin 7, Fin 3]) =
     Some [Fin 1, Fin 3, Fin 2, Fin 7]" by code_simp
  show ?thesis using e delete_min_restores_heap[OF ne h] by simp
qed

section \<open>Shape and length of the traces\<close>

text \<open>
  Claim C7. \<open>generateDeleteMinSteps\<close> returns the empty trace exactly when the input heap
  is empty, and \<open>generateInsertSteps\<close> never does: its trace starts with the push step and
  ends with a done step, for every input.
\<close>

theorem empty_trace_only_for_empty_delete:
  "(generateDeleteMinSteps startHeap = [] \<longleftrightarrow> startHeap = []) \<and>
   (\<exists>mid fin. generateInsertSteps startHeap v =
       Push (startHeap @ [v]) (length startHeap) # mid @ [Done fin])"
proof -
  have "\<exists>mid fin. insertLoop arr i = mid @ [Done fin]" for arr i
  proof (induction arr i rule: insertLoop.induct)
    case (1 arr i)
    show ?case
    proof (cases "0 < i \<and> js_lt (arr ! i) (arr ! parent_of i)")
      case True
      let ?arr' = "arr[i := arr ! parent_of i, parent_of i := arr ! i]"
      obtain mid fin where "insertLoop ?arr' (parent_of i) = mid @ [Done fin]"
        using "1.IH"[OF _ refl _ refl refl] True by auto
      then have "insertLoop arr i = (CompareParent arr i (parent_of i) # SwapParent ?arr' i (parent_of i) # mid) @ [Done fin]"
        using True by (simp add: insertLoop_swap)
      then show ?thesis by blast
    next
      case False
      then have "insertLoop arr i = [] @ [Done arr] \<or> insertLoop arr i = [CompareParent arr i (parent_of i)] @ [Done arr]"
        by (subst (1 2) insertLoop.simps) (auto simp: Let_def)
      then show ?thesis by blast
    qed
  qed
  then show ?thesis
    by (auto simp: generateDeleteMinSteps_def generateInsertSteps_def Let_def)
qed

lemma insertLoop_length: "length (insertLoop arr i) \<le> 2 * i + 1"
proof (induction arr i rule: insertLoop.induct)
  case (1 arr i)
  show ?case
  proof (cases "0 < i \<and> js_lt (arr ! i) (arr ! parent_of i)")
    case True
    let ?arr' = "arr[i := arr ! parent_of i, parent_of i := arr ! i]"
    have "length (insertLoop ?arr' (parent_of i)) \<le> 2 * parent_of i + 1"
      using "1.IH"[OF _ refl _ refl refl] True by simp
    moreover have "parent_of i < i" using True parent_of_less by simp
    ultimately show ?thesis using True by (simp add: insertLoop_swap)
  next
    case False
    then show ?thesis by (subst insertLoop.simps) (auto simp: Let_def)
  qed
qed

lemma deleteLoop_length: "length (deleteLoop arr i) \<le> 2 * (length arr - i) + 1"
proof (induction arr i rule: deleteLoop.induct)
  case (1 arr i)
  show ?case
  proof (cases "2 * i + 1 < length arr \<and> js_lt (arr ! smaller_of arr i) (arr ! i)")
    case True
    let ?s = "smaller_of arr i"
    let ?arr' = "arr[i := arr ! ?s, ?s := arr ! i]"
    have "length (deleteLoop ?arr' ?s) \<le> 2 * (length ?arr' - ?s) + 1"
      using "1.IH"[OF refl _ refl _ refl refl] True by simp
    moreover have "i < ?s" "?s < length arr" using True smaller_of_bounds[of i arr] by simp_all
    ultimately show ?thesis using True by (simp add: deleteLoop_swap)
  next
    case False
    then show ?thesis by (subst deleteLoop.simps) (auto simp: Let_def)
  qed
qed

text \<open>
  Claim C10. Both generators return a trace for every input array, heap or not. The two
  loops are defined above with their termination proofs, on the measures the claim names:
  the bubble-up index goes to its parent, which is strictly smaller, and the bubble-down
  index goes to a child, which is strictly larger and below the array length. Each
  iteration pushes at most two steps, which bounds the length of the traces.
\<close>

theorem generators_terminate:
  "length (generateInsertSteps startHeap v) \<le> 2 * length startHeap + 2 \<and>
   length (generateDeleteMinSteps startHeap) \<le> 2 * length startHeap + 2 \<and>
   (0 < i \<longrightarrow> parent_of i < i) \<and>
   (2 * k + 1 < length arr \<longrightarrow> k < smaller_of arr k \<and> smaller_of arr k < length arr)"
proof -
  have "length (generateInsertSteps startHeap v) \<le> 2 * length startHeap + 2"
    using insertLoop_length[of "startHeap @ [v]" "length startHeap"]
    by (simp add: generateInsertSteps_def Let_def)
  moreover have "length (generateDeleteMinSteps startHeap) \<le> 2 * length startHeap + 2"
  proof (cases "2 \<le> length startHeap")
    case True
    let ?a = "butlast (startHeap[0 := startHeap ! (length startHeap - 1), length startHeap - 1 := startHeap ! 0])"
    have "length (deleteLoop ?a 0) \<le> 2 * (length ?a - 0) + 1" by (rule deleteLoop_length)
    moreover have "length ?a = length startHeap - 1" by simp
    ultimately have "length (deleteLoop ?a 0) + 3 \<le> 2 * length startHeap + 2" using True by linarith
    moreover have "length (generateDeleteMinSteps startHeap) = length (deleteLoop ?a 0) + 3"
      using True by (auto simp: generateDeleteMinSteps_def Let_def)
    ultimately show ?thesis by simp
  next
    case False
    then show ?thesis by (auto simp: generateDeleteMinSteps_def Let_def)
  qed
  ultimately show ?thesis using parent_of_less smaller_of_bounds by simp
qed

theorem generators_terminate_witness:
  "length (generateInsertSteps [Fin 3, Fin 1, Fin 2] (Fin 0)) \<le> 2 * length [Fin 3, Fin 1, Fin 2] + 2 \<and>
   length (generateDeleteMinSteps [Fin 3, Fin 1, Fin 2]) \<le> 2 * length [Fin 3, Fin 1, Fin 2] + 2 \<and>
   parent_of 3 < 3 \<and>
   1 < smaller_of [Fin 3, Fin 1, Fin 2, Fin 9, Fin 4] 1 \<and>
   smaller_of [Fin 3, Fin 1, Fin 2, Fin 9, Fin 4] 1 < length [Fin 3, Fin 1, Fin 2, Fin 9, Fin 4]"
  using generators_terminate[where startHeap = "[Fin 3, Fin 1, Fin 2]" and v = "Fin 0" and i = 3
      and k = 1 and arr = "[Fin 3, Fin 1, Fin 2, Fin 9, Fin 4]"]
  by simp

section \<open>Compare steps\<close>

lemma js_lt_irrefl: "\<not> js_lt a a"
  by (cases a) auto

lemma deleteLoop_compare:
  "CompareSmaller a i s \<in> set (deleteLoop arr k) \<Longrightarrow> 2 * i + 1 < length a \<and> s = smaller_of a i"
proof (induction arr k rule: deleteLoop.induct)
  case (1 arr k)
  show ?case
  proof (cases "2 * k + 1 < length arr \<and> js_lt (arr ! smaller_of arr k) (arr ! k)")
    case True
    then show ?thesis using "1.IH"[OF refl _ refl _ refl refl] "1.prems"
      by (auto simp: deleteLoop_swap)
  next
    case False
    then show ?thesis using "1.prems"
      by (subst (asm) deleteLoop.simps) (auto simp: Let_def split: if_splits)
  qed
qed

text \<open>
  Claim C5. Every compare step of a delete-min trace names as candidate the left child of
  \<open>i\<close>, unless the right child exists and is strictly less than the left child, in which
  case it names the right child. In particular, when the two children are equal the left
  child is chosen.
\<close>

theorem smaller_prefers_left:
  assumes "CompareSmaller a i s \<in> set (generateDeleteMinSteps startHeap)"
  shows "2 * i + 1 < length a \<and>
         (if 2 * i + 2 < length a \<and> js_lt (a ! (2 * i + 2)) (a ! (2 * i + 1))
          then s = 2 * i + 2 else s = 2 * i + 1) \<and>
         (a ! (2 * i + 2) = a ! (2 * i + 1) \<longrightarrow> s = 2 * i + 1)"
proof -
  have "CompareSmaller a i s \<in> set (deleteLoop (butlast (startHeap[0 := startHeap ! (length startHeap - 1), length startHeap - 1 := startHeap ! 0])) 0)"
    using assms by (auto simp: generateDeleteMinSteps_def Let_def split: if_splits)
  then have "2 * i + 1 < length a \<and> s = smaller_of a i" by (rule deleteLoop_compare)
  then show ?thesis by (auto simp: smaller_of_def Let_def js_lt_irrefl)
qed

theorem smaller_prefers_left_witness:
  "CompareSmaller [Fin 5, Fin 2, Fin 2] 0 1 \<in> set (generateDeleteMinSteps [Fin 1, Fin 2, Fin 2, Fin 5]) \<and>
   [Fin 5, Fin 2, Fin 2] ! (2 * 0 + 2) = [Fin 5, Fin 2, Fin 2 :: jsnum] ! (2 * 0 + 1) \<and>
   (1::nat) = 2 * 0 + 1"
proof -
  have m: "CompareSmaller [Fin 5, Fin 2, Fin 2] 0 1 \<in> set (generateDeleteMinSteps [Fin 1, Fin 2, Fin 2, Fin 5])"
    by code_simp
  show ?thesis using m smaller_prefers_left[OF m] by simp
qed

lemma successively_nth:
  "successively P xs \<Longrightarrow> Suc k < length xs \<Longrightarrow> P (xs ! k) (xs ! Suc k)"
proof (induction xs arbitrary: k)
  case Nil
  then show ?case by simp
next
  case (Cons x xs)
  then show ?case by (cases k; cases xs) (auto simp: successively_Cons)
qed

lemma insertLoop_hd:
  "hd (insertLoop arr i) = Done arr \<or> hd (insertLoop arr i) = CompareParent arr i (parent_of i)"
  by (subst (1 2) insertLoop.simps) (simp add: Let_def)

lemma deleteLoop_hd:
  "hd (deleteLoop arr i) = Done arr \<or> hd (deleteLoop arr i) = CompareSmaller arr i (smaller_of arr i)"
  by (subst (1 2) deleteLoop.simps) (simp add: Let_def)

lemma insertLoop_pairs: "successively step_pair_ok (insertLoop arr i)"
proof (induction arr i rule: insertLoop.induct)
  case (1 arr i)
  show ?case
  proof (cases "0 < i \<and> js_lt (arr ! i) (arr ! parent_of i)")
    case True
    let ?arr' = "arr[i := arr ! parent_of i, parent_of i := arr ! i]"
    have "successively step_pair_ok (insertLoop ?arr' (parent_of i))"
      using "1.IH"[OF _ refl _ refl refl] True by simp
    moreover have "step_pair_ok (SwapParent ?arr' i (parent_of i)) (hd (insertLoop ?arr' (parent_of i)))"
      using insertLoop_hd[of ?arr' "parent_of i"] by (auto simp: step_pair_ok_def)
    moreover have "step_pair_ok (CompareParent arr i (parent_of i)) (SwapParent ?arr' i (parent_of i))"
      using True by (simp add: step_pair_ok_def)
    ultimately show ?thesis using True by (simp add: insertLoop_swap successively_Cons)
  next
    case False
    then show ?thesis by (subst insertLoop.simps) (auto simp: Let_def step_pair_ok_def)
  qed
qed

lemma deleteLoop_pairs: "successively step_pair_ok (deleteLoop arr i)"
proof (induction arr i rule: deleteLoop.induct)
  case (1 arr i)
  show ?case
  proof (cases "2 * i + 1 < length arr \<and> js_lt (arr ! smaller_of arr i) (arr ! i)")
    case True
    let ?s = "smaller_of arr i"
    let ?arr' = "arr[i := arr ! ?s, ?s := arr ! i]"
    have "successively step_pair_ok (deleteLoop ?arr' ?s)"
      using "1.IH"[OF refl _ refl _ refl refl] True by simp
    moreover have "step_pair_ok (SwapJ ?arr' i ?s) (hd (deleteLoop ?arr' ?s))"
      using deleteLoop_hd[of ?arr' ?s] by (auto simp: step_pair_ok_def)
    moreover have "step_pair_ok (CompareSmaller arr i ?s) (SwapJ ?arr' i ?s)"
      using True by (simp add: step_pair_ok_def)
    ultimately show ?thesis using True by (simp add: deleteLoop_swap successively_Cons)
  next
    case False
    then show ?thesis by (subst deleteLoop.simps) (auto simp: Let_def step_pair_ok_def)
  qed
qed

lemma insertLoop_last_Done: "\<exists>a. last (insertLoop arr i) = Done a"
proof (induction arr i rule: insertLoop.induct)
  case (1 arr i)
  show ?case
  proof (cases "0 < i \<and> js_lt (arr ! i) (arr ! parent_of i)")
    case True
    then show ?thesis using "1.IH"[OF _ refl _ refl refl] by (simp add: insertLoop_swap insertLoop_not_Nil)
  next
    case False
    then show ?thesis using insertLoop_stop[of i arr] by auto
  qed
qed

lemma deleteLoop_last_Done: "\<exists>a. last (deleteLoop arr i) = Done a"
proof (induction arr i rule: deleteLoop.induct)
  case (1 arr i)
  show ?case
  proof (cases "2 * i + 1 < length arr \<and> js_lt (arr ! smaller_of arr i) (arr ! i)")
    case True
    then show ?thesis using "1.IH"[OF refl _ refl _ refl refl] by (simp add: deleteLoop_swap deleteLoop_not_Nil)
  next
    case False
    then show ?thesis using deleteLoop_stop[of arr i] by auto
  qed
qed

lemma generated_trace_shape:
  assumes t: "t = generateInsertSteps startHeap v \<or> t = generateDeleteMinSteps startHeap"
    and ne: "t \<noteq> []"
  shows "successively step_pair_ok t \<and> type_of (hd t) \<noteq> TCompare \<and> type_of (hd t) \<noteq> TSwap \<and>
         type_of (last t) = TDone"
  using t
proof
  assume ti: "t = generateInsertSteps startHeap v"
  let ?a = "startHeap @ [v]"
  have "step_pair_ok (Push ?a (length startHeap)) (hd (insertLoop ?a (length startHeap)))"
    using insertLoop_hd[of ?a "length startHeap"] by (auto simp: step_pair_ok_def)
  moreover obtain a where "last (insertLoop ?a (length startHeap)) = Done a"
    using insertLoop_last_Done by blast
  ultimately show ?thesis using insertLoop_pairs[of ?a "length startHeap"]
    by (simp add: ti generateInsertSteps_def Let_def successively_Cons insertLoop_not_Nil)
next
  assume td: "t = generateDeleteMinSteps startHeap"
  show ?thesis
  proof (cases "2 \<le> length startHeap")
    case True
    let ?a1 = "startHeap[0 := startHeap ! (length startHeap - 1), length startHeap - 1 := startHeap ! 0]"
    let ?a = "butlast ?a1"
    have e: "t = RemoveRoot startHeap 0 (length startHeap - 1) # SwapJ ?a1 0 (length startHeap - 1) #
                 Pop ?a (length startHeap - 1) # deleteLoop ?a 0"
      using True by (auto simp: td generateDeleteMinSteps_def Let_def)
    have "step_pair_ok (Pop ?a (length startHeap - 1)) (hd (deleteLoop ?a 0))"
      using deleteLoop_hd[of ?a 0] by (auto simp: step_pair_ok_def)
    moreover obtain a where "last (deleteLoop ?a 0) = Done a"
      using deleteLoop_last_Done by blast
    ultimately show ?thesis using deleteLoop_pairs[of ?a 0]
      by (simp add: e successively_Cons deleteLoop_not_Nil step_pair_ok_def)
  next
    case False
    then show ?thesis using ne by (auto simp: td generateDeleteMinSteps_def Let_def step_pair_ok_def)
  qed
qed

lemma insertLoop_hd_eq:
  "hd (insertLoop arr i) = (if i > 0 then CompareParent arr i (parent_of i) else Done arr)"
  by (subst insertLoop.simps) (simp add: Let_def)

lemma deleteLoop_hd_eq:
  "hd (deleteLoop arr i) =
     (if 2 * i + 1 < length arr then CompareSmaller arr i (smaller_of arr i) else Done arr)"
  by (subst deleteLoop.simps) (simp add: Let_def)

lemma insertLoop_iterations: "successively iteration_pair (insertLoop arr i)"
proof (induction arr i rule: insertLoop.induct)
  case (1 arr i)
  show ?case
  proof (cases "0 < i \<and> js_lt (arr ! i) (arr ! parent_of i)")
    case True
    let ?arr' = "arr[i := arr ! parent_of i, parent_of i := arr ! i]"
    have "successively iteration_pair (insertLoop ?arr' (parent_of i))"
      using "1.IH"[OF _ refl _ refl refl] True by simp
    moreover have "iteration_pair (SwapParent ?arr' i (parent_of i)) (hd (insertLoop ?arr' (parent_of i)))"
      by (simp add: iteration_pair_def insertLoop_hd_eq)
    moreover have "iteration_pair (CompareParent arr i (parent_of i)) (SwapParent ?arr' i (parent_of i))"
      by (simp add: iteration_pair_def)
    ultimately show ?thesis using True by (simp add: insertLoop_swap successively_Cons)
  next
    case False
    then show ?thesis by (subst insertLoop.simps) (auto simp: Let_def iteration_pair_def)
  qed
qed

lemma deleteLoop_iterations: "successively iteration_pair (deleteLoop arr i)"
proof (induction arr i rule: deleteLoop.induct)
  case (1 arr i)
  show ?case
  proof (cases "2 * i + 1 < length arr \<and> js_lt (arr ! smaller_of arr i) (arr ! i)")
    case True
    let ?s = "smaller_of arr i"
    let ?arr' = "arr[i := arr ! ?s, ?s := arr ! i]"
    have "successively iteration_pair (deleteLoop ?arr' ?s)"
      using "1.IH"[OF refl _ refl _ refl refl] True by simp
    moreover have "iteration_pair (SwapJ ?arr' i ?s) (hd (deleteLoop ?arr' ?s))"
      by (simp add: iteration_pair_def deleteLoop_hd_eq)
    moreover have "iteration_pair (CompareSmaller arr i ?s) (SwapJ ?arr' i ?s)"
      by (simp add: iteration_pair_def)
    ultimately show ?thesis using True by (simp add: deleteLoop_swap successively_Cons)
  next
    case False
    then show ?thesis by (subst deleteLoop.simps) (auto simp: Let_def iteration_pair_def)
  qed
qed

lemma generated_trace_iterations:
  assumes t: "t = generateInsertSteps startHeap v \<or> t = generateDeleteMinSteps startHeap"
    and k: "k < length t"
    and m: "type_of (t ! k) = TPush \<or> type_of (t ! k) = TPop \<or>
            (type_of (t ! k) = TSwap \<and> type_of (t ! (k - 1)) = TCompare)"
  shows "Suc k < length t \<and> t ! Suc k = iteration_start (t ! k)"
proof -
  have ne: "t \<noteq> []" using k by auto
  have "type_of (last t) = TDone" using generated_trace_shape[OF t ne] by simp
  moreover have "type_of (t ! k) \<noteq> TDone" using m by auto
  ultimately have "t ! k \<noteq> last t" by auto
  then have "k \<noteq> length t - 1" using ne by (auto simp: last_conv_nth)
  then have sk: "Suc k < length t" using k by simp
  have ty: "type_of (t ! k) \<in> {TPush, TPop, TSwap}" using m by auto
  from t show ?thesis
  proof
    assume ti: "t = generateInsertSteps startHeap v"
    let ?a = "startHeap @ [v]"
    have "iteration_pair (Push ?a (length startHeap)) (hd (insertLoop ?a (length startHeap)))"
      by (simp add: iteration_pair_def insertLoop_hd_eq)
    then have "successively iteration_pair t"
      using insertLoop_iterations[of ?a "length startHeap"]
      by (simp add: ti generateInsertSteps_def Let_def successively_Cons)
    then have "iteration_pair (t ! k) (t ! Suc k)" using sk by (rule successively_nth)
    then show ?thesis using sk ty by (auto simp: iteration_pair_def)
  next
    assume td: "t = generateDeleteMinSteps startHeap"
    show ?thesis
    proof (cases "2 \<le> length startHeap")
      case True
      let ?a1 = "startHeap[0 := startHeap ! (length startHeap - 1), length startHeap - 1 := startHeap ! 0]"
      let ?a = "butlast ?a1"
      let ?r = "Pop ?a (length startHeap - 1) # deleteLoop ?a 0"
      have e: "t = RemoveRoot startHeap 0 (length startHeap - 1) #
                   SwapJ ?a1 0 (length startHeap - 1) # ?r"
        using True by (auto simp: td generateDeleteMinSteps_def Let_def)
      have k2: "2 \<le> k"
      proof (rule ccontr)
        assume "\<not> 2 \<le> k"
        then have "k = 0 \<or> k = 1" by auto
        then show False using m by (auto simp: e)
      qed
      have "iteration_pair (Pop ?a (length startHeap - 1)) (hd (deleteLoop ?a 0))"
        by (simp add: iteration_pair_def deleteLoop_hd_eq)
      then have "successively iteration_pair ?r"
        using deleteLoop_iterations[of ?a 0] by (simp add: successively_Cons)
      moreover have "Suc (k - 2) < length ?r" using sk k2 by (simp add: e)
      ultimately have "iteration_pair (?r ! (k - 2)) (?r ! Suc (k - 2))" by (rule successively_nth)
      moreover have "t ! k = ?r ! (k - 2)" "t ! Suc k = ?r ! Suc (k - 2)"
        using k2 by (simp_all add: e nth_Cons' Suc_diff_le numeral_2_eq_2)
      ultimately show ?thesis using sk ty by (auto simp: iteration_pair_def)
    next
      case False
      then have "t = [RemoveRoot startHeap 0 (length startHeap - 1), Done (butlast startHeap)]"
        using ne by (auto simp: td generateDeleteMinSteps_def Let_def)
      then show ?thesis using m k by (auto simp: nth_Cons' split: if_splits)
    qed
  qed
qed

text \<open>
  Claim C6. In a trace of either generator, a compare step is never the first step and
  carries the same snapshot as the step just before it. It is never the last step either:
  the step after it is the one the comparison decides on, the swap of the compared pair or
  the done step. Every swap has the compare of the same pair just before it, except the
  exchange of root and last element at the start of delete-min, which follows the removeRoot
  step and depends on no comparison. And the compare is pushed in every iteration, before
  the decision and whether or not a swap follows: after the push, after the pop and after
  every swap of a loop, the next step is the compare of the next iteration whenever the loop
  condition holds, and the done step on the same array only when it does not.
\<close>

theorem compare_keeps_snapshot_and_precedes_swap:
  assumes t: "t = generateInsertSteps startHeap v \<or> t = generateDeleteMinSteps startHeap"
    and k: "k < length t"
  shows "(type_of (t ! k) = TCompare \<longrightarrow>
            0 < k \<and> arr_of (t ! k) = arr_of (t ! (k - 1)) \<and>
            Suc k < length t \<and> compare_outcome (t ! k) = Some (t ! Suc k)) \<and>
         (type_of (t ! k) = TSwap \<longrightarrow> 0 < k \<and> decided_by (t ! (k - 1)) (t ! k)) \<and>
         (type_of (t ! k) = TPush \<or> type_of (t ! k) = TPop \<or>
            (type_of (t ! k) = TSwap \<and> type_of (t ! (k - 1)) = TCompare) \<longrightarrow>
            Suc k < length t \<and> t ! Suc k = iteration_start (t ! k))"
proof -
  have ne: "t \<noteq> []" using k by auto
  have sh: "successively step_pair_ok t" "type_of (hd t) \<noteq> TCompare" "type_of (hd t) \<noteq> TSwap"
    "type_of (last t) = TDone"
    using generated_trace_shape[OF t ne] by simp_all
  have prev: "step_pair_ok (t ! (k - 1)) (t ! k)" if "0 < k"
    using successively_nth[OF sh(1), of "k - 1"] that k by simp
  have "next": "step_pair_ok (t ! k) (t ! Suc k)" if "Suc k < length t"
    using successively_nth[OF sh(1) that] .
  have k0: "0 < k" if "type_of (t ! k) = TCompare \<or> type_of (t ! k) = TSwap"
  proof (rule ccontr)
    assume "\<not> 0 < k"
    then have "t ! k = hd t" using ne by (simp add: hd_conv_nth)
    then show False using that sh(2,3) by auto
  qed
  have notlast: "Suc k < length t" if c: "type_of (t ! k) = TCompare"
  proof (rule ccontr)
    assume "\<not> Suc k < length t"
    then have "k = length t - 1" using k by simp
    then have "t ! k = last t" using ne by (simp add: last_conv_nth)
    then show False using c sh(4) by simp
  qed
  show ?thesis
  proof (intro conjI impI)
    assume c: "type_of (t ! k) = TCompare"
    show "0 < k" using k0 c by simp
    then show "arr_of (t ! k) = arr_of (t ! (k - 1))" using prev c by (simp add: step_pair_ok_def)
    show "Suc k < length t" using notlast[OF c] .
    then show "compare_outcome (t ! k) = Some (t ! Suc k)" using "next" c by (simp add: step_pair_ok_def)
  next
    assume s: "type_of (t ! k) = TSwap"
    show "0 < k" using k0 s by simp
    then show "decided_by (t ! (k - 1)) (t ! k)" using prev s by (simp add: step_pair_ok_def)
  next
    assume m: "type_of (t ! k) = TPush \<or> type_of (t ! k) = TPop \<or>
               (type_of (t ! k) = TSwap \<and> type_of (t ! (k - 1)) = TCompare)"
    show "Suc k < length t" using generated_trace_iterations[OF t k m] by simp
    show "t ! Suc k = iteration_start (t ! k)" using generated_trace_iterations[OF t k m] by simp
  qed
qed

theorem compare_keeps_snapshot_and_precedes_swap_witness:
  "generateInsertSteps [Fin 1, Fin 2] (Fin 5) =
     [Push [Fin 1, Fin 2, Fin 5] 2,
      CompareParent [Fin 1, Fin 2, Fin 5] 2 0,
      Done [Fin 1, Fin 2, Fin 5]] \<and>
   iteration_start (Push [Fin 1, Fin 2, Fin 5] 2) = CompareParent [Fin 1, Fin 2, Fin 5] 2 0 \<and>
   compare_outcome (CompareParent [Fin 1, Fin 2, Fin 5] 2 0) = Some (Done [Fin 1, Fin 2, Fin 5]) \<and>
   generateDeleteMinSteps [Fin 0, Fin 1, Fin 2, Fin 7, Fin 3] =
     [RemoveRoot [Fin 0, Fin 1, Fin 2, Fin 7, Fin 3] 0 4,
      SwapJ [Fin 3, Fin 1, Fin 2, Fin 7, Fin 0] 0 4,
      Pop [Fin 3, Fin 1, Fin 2, Fin 7] 4,
      CompareSmaller [Fin 3, Fin 1, Fin 2, Fin 7] 0 1,
      SwapJ [Fin 1, Fin 3, Fin 2, Fin 7] 0 1,
      CompareSmaller [Fin 1, Fin 3, Fin 2, Fin 7] 1 3,
      Done [Fin 1, Fin 3, Fin 2, Fin 7]] \<and>
   iteration_start (Pop [Fin 3, Fin 1, Fin 2, Fin 7] 4) =
     CompareSmaller [Fin 3, Fin 1, Fin 2, Fin 7] 0 1 \<and>
   compare_outcome (CompareSmaller [Fin 3, Fin 1, Fin 2, Fin 7] 0 1) =
     Some (SwapJ [Fin 1, Fin 3, Fin 2, Fin 7] 0 1) \<and>
   decided_by (CompareSmaller [Fin 3, Fin 1, Fin 2, Fin 7] 0 1) (SwapJ [Fin 1, Fin 3, Fin 2, Fin 7] 0 1) \<and>
   iteration_start (SwapJ [Fin 1, Fin 3, Fin 2, Fin 7] 0 1) =
     CompareSmaller [Fin 1, Fin 3, Fin 2, Fin 7] 1 3 \<and>
   compare_outcome (CompareSmaller [Fin 1, Fin 3, Fin 2, Fin 7] 1 3) =
     Some (Done [Fin 1, Fin 3, Fin 2, Fin 7])"
proof -
  let ?h = "[Fin 1, Fin 2]"
  let ?t = "generateInsertSteps ?h (Fin 5)"
  let ?g = "[Fin 0, Fin 1, Fin 2, Fin 7, Fin 3]"
  let ?d = "generateDeleteMinSteps ?g"
  have e: "?t =
     [Push [Fin 1, Fin 2, Fin 5] 2,
      CompareParent [Fin 1, Fin 2, Fin 5] 2 0,
      Done [Fin 1, Fin 2, Fin 5]]"
    by code_simp
  have f: "?d =
     [RemoveRoot [Fin 0, Fin 1, Fin 2, Fin 7, Fin 3] 0 4,
      SwapJ [Fin 3, Fin 1, Fin 2, Fin 7, Fin 0] 0 4,
      Pop [Fin 3, Fin 1, Fin 2, Fin 7] 4,
      CompareSmaller [Fin 3, Fin 1, Fin 2, Fin 7] 0 1,
      SwapJ [Fin 1, Fin 3, Fin 2, Fin 7] 0 1,
      CompareSmaller [Fin 1, Fin 3, Fin 2, Fin 7] 1 3,
      Done [Fin 1, Fin 3, Fin 2, Fin 7]]"
    by code_simp
  have i0: "?t ! Suc 0 = iteration_start (?t ! 0)"
    using compare_keeps_snapshot_and_precedes_swap[of ?t ?h "Fin 5" 0] by (simp add: e)
  have i1: "compare_outcome (?t ! 1) = Some (?t ! Suc 1)"
    using compare_keeps_snapshot_and_precedes_swap[of ?t ?h "Fin 5" 1] by (simp add: e)
  have d2: "?d ! Suc 2 = iteration_start (?d ! 2)"
    using compare_keeps_snapshot_and_precedes_swap[of ?d ?g "Fin 5" 2] by (simp add: f)
  have d3: "compare_outcome (?d ! 3) = Some (?d ! Suc 3)"
    using compare_keeps_snapshot_and_precedes_swap[of ?d ?g "Fin 5" 3] by (simp add: f)
  have d4: "decided_by (?d ! (4 - 1)) (?d ! 4) \<and> ?d ! Suc 4 = iteration_start (?d ! 4)"
    using compare_keeps_snapshot_and_precedes_swap[of ?d ?g "Fin 5" 4] by (simp add: f)
  have d5: "compare_outcome (?d ! 5) = Some (?d ! Suc 5)"
    using compare_keeps_snapshot_and_precedes_swap[of ?d ?g "Fin 5" 5] by (simp add: f)
  show ?thesis using e f i0 i1 d2 d3 d4 d5 by simp
qed

section \<open>The playback controller: timers, loading and insert input\<close>

lemma clear_live: "live (clearInterval_ref st) = live st - set_option (timerRef st)"
  by (simp add: clearInterval_ref_def split: option.splits)

lemma clear_fields:
  "timerRef (clearInterval_ref st) = timerRef st" "running (clearInterval_ref st) = running st"
  "stepsRef (clearInterval_ref st) = stepsRef st" "stepIndexRef (clearInterval_ref st) = stepIndexRef st"
  by (simp_all add: clearInterval_ref_def split: option.splits)

lemma applyStep_frame:
  "live (applyStep s st) = live st" "timerRef (applyStep s st) = timerRef st"
  "running (applyStep s st) = running st" "stepsRef (applyStep s st) = stepsRef st"
  "stepIndexRef (applyStep s st) = stepIndexRef st" "nextId (applyStep s st) = nextId st"
  "heap (applyStep s st) = arr_of s"
  by (cases s; simp)+

lemma one_timer_fire: "one_timer st \<Longrightarrow> one_timer (fire st e)"
  by (cases e)
     (auto simp: one_timer_def handleInsert_def handleRandomInsert_def handleDeleteMin_def
        startSteps_def handlePlay_def handlePause_def handleNext_def runStep_def setSpeedMs_def
        speedEffect_def setInterval_ref_def clear_live clear_fields applyStep_frame Let_def
        split: if_splits)

text \<open>
  In the "cleaned & fixed" version, every handler that sets a timer cancels the
  one held in \<open>timerRef\<close> first, and every handler that forgets the handle cancels it
  first: after any sequence of events at most one timer is live.
\<close>

lemma run_one_timer: "one_timer (run evs)"
proof -
  have "one_timer st \<Longrightarrow> one_timer (foldl fire st evs)" for st
    by (induction evs arbitrary: st) (simp_all add: one_timer_fire)
  moreover have "one_timer initial" by (simp add: one_timer_def initial_def)
  ultimately show ?thesis by (simp add: run_def)
qed

lemma reachable_at_most_one_timer:
  "live (run evs) \<subseteq> set_option (timerRef (run evs)) \<and> card (live (run evs)) \<le> 1"
proof -
  have s: "live (run evs) \<subseteq> set_option (timerRef (run evs))"
    using run_one_timer[of evs] by (simp add: one_timer_def)
  have "card (live (run evs)) \<le> card (set_option (timerRef (run evs)))"
    by (rule card_mono[OF _ s]) simp
  also have "\<dots> \<le> 1" by (cases "timerRef (run evs)") simp_all
  finally show ?thesis using s by simp
qed

text \<open>
  In that version, loading a non-empty trace publishes the heap, highlight and pseudo-code
  text of step 0 at once, sets the cursor to 1, cancels the timer held and leaves the
  controller not running, with no timer.
\<close>

lemma startSteps_loads_paused:
  assumes "steps \<noteq> []"
  shows "stepsRef (startSteps steps st) = steps \<and>
         heap (startSteps steps st) = arr_of (steps ! 0) \<and>
         highlight (startSteps steps st) = highlight (applyStep (steps ! 0) st) \<and>
         pseudo (startSteps steps st) = pseudo (applyStep (steps ! 0) st) \<and>
         stepIndexRef (startSteps steps st) = 1 \<and>
         \<not> running (startSteps steps st) \<and>
         timerRef (startSteps steps st) = None \<and>
         live (startSteps steps st) = live st - set_option (timerRef st)"
  using assms
  by (cases "steps ! 0")
     (auto simp: startSteps_def Let_def clear_live clear_fields applyStep_frame)

lemma startSteps_no_timer:
  "live (startSteps (s # steps) (run evs)) = {} \<and> timerRef (startSteps (s # steps) (run evs)) = None"
proof -
  have "live (run evs) \<subseteq> set_option (timerRef (run evs))"
    using reachable_at_most_one_timer by blast
  then show ?thesis
    using startSteps_loads_paused[of "s # steps" "run evs"] by auto
qed

text \<open>
  Claim C3. Loading a non-empty trace applies step 0 at once, publishing its heap snapshot,
  highlight and pseudo-code text, sets the cursor to 1 and leaves the controller paused: no
  timer running, \<open>running\<close> false. The \<open>startSteps\<close> of \<open>src/HeapVisualizer.jsx\<close> does
  not: on the trace of inserting 5 into the empty heap, at mount, it publishes the snapshot
  and sets the cursor to 1, but it clears the highlight instead of publishing the one of the
  push step, sets \<open>running\<close> to true and starts timer 1.
\<close>

theorem hv_startSteps_starts_playing:
  "hv_startSteps (generateInsertSteps [] (Fin 5)) hv_initial =
     \<lparr>hv_heap = [Fin 5], hv_running = True, hv_speed = 600, hv_highlight = NoHighlight,
      hv_stepsRef = [Push [Fin 5] 0, Done [Fin 5]], hv_timerRef = Some 1, hv_stepIndexRef = 1,
      hv_live = {1}, hv_nextId = 2\<rparr>"
  by (simp add: hv_startSteps_def hv_initial_def hv_setInterval_ref_def generateInsertSteps_def
      insertLoop.simps Let_def)

text \<open>
  Claim C4. The controller never has more than one live timer: whatever creates a timer
  cancels the one held before. The \<open>startSteps\<close> of \<open>src/HeapVisualizer.jsx\<close> creates a
  timer without cancelling: after two inserts in a row, the second while the first trace is
  still playing, timers 1 and 2 are both live and only timer 2 is held in the ref.
\<close>

theorem hv_second_load_leaves_two_timers:
  "hv_live (hv_run [HvInsert (Fin 5), HvInsert (Fin 3)]) = {1, 2} \<and>
   hv_timerRef (hv_run [HvInsert (Fin 5), HvInsert (Fin 3)]) = Some 2 \<and>
   card (hv_live (hv_run [HvInsert (Fin 5), HvInsert (Fin 3)])) = 2"
  by (auto simp: hv_run_def hv_handleInsert_def hv_startSteps_def hv_initial_def
      hv_setInterval_ref_def generateInsertSteps_def Let_def)

text \<open>
  Claim C8. An insert input whose conversion to a number is \<open>NaN\<close> makes \<open>handleInsert\<close>
  a no-op: no trace is generated or loaded, and the published heap, highlight and
  pseudo-code text, like everything else the controller holds, stay as they are. This is
  the guard \<open>if (Number.isNaN(v)) return;\<close> of the "cleaned & fixed" version, and \<open>NaN\<close> is
  the only input it stops: every other number loads a trace and publishes a longer heap.
  The handler of \<open>src/HeapVisualizer.jsx\<close> has no such guard; its input comes only from
  the number field, whose text is empty or a valid number and never converts to \<open>NaN\<close>.
\<close>

theorem handleInsert_rejects_NaN:
  "handleInsert NaN st = st \<and> (handleInsert v st = st \<longleftrightarrow> v = NaN)"
proof -
  have "handleInsert v st \<noteq> st" if "v \<noteq> NaN"
  proof
    assume eq: "handleInsert v st = st"
    let ?steps = "generateInsertSteps (heap st) v"
    have ne: "?steps \<noteq> []" by (simp add: generateInsertSteps_def Let_def)
    have "heap (startSteps ?steps st) = arr_of (?steps ! 0)"
      using startSteps_loads_paused[OF ne] by simp
    also have "\<dots> = heap st @ [v]" by (simp add: generateInsertSteps_def Let_def)
    finally have "heap (handleInsert v st) = heap st @ [v]"
      using that by (simp add: handleInsert_def)
    then show False using eq by simp
  qed
  then show ?thesis by (auto simp: handleInsert_def)
qed

end
